theory Spec2Isabelle
  imports Main "HOL-Library.Multiset"
begin

section \<open>Market data ingestion worker: data model\<close>

text \<open>
  The development embeds \<^verbatim>\<open>workers/market-ingest/src/index.ts\<close>: the class
  \<^verbatim>\<open>MarketDataIngestor\<close> with \<^verbatim>\<open>processTick\<close>, \<^verbatim>\<open>flushBatch\<close>,
  \<^verbatim>\<open>startBatchProcessor\<close> and \<^verbatim>\<open>shutdown\<close>, together with the two external
  services it talks to (the Redis client and the ClickHouse client).

  A JavaScript \<^verbatim>\<open>Date\<close> holds a time value: a whole number of milliseconds since the
  epoch, or NaN (an invalid date). \<^verbatim>\<open>toISOString\<close> raises \<^verbatim>\<open>RangeError\<close> on an
  invalid date. The JavaScript \<^verbatim>\<open>number\<close> type is the type parameter \<open>'n\<close>: nothing
  in the worker computes with a price or a volume.
\<close>

datatype Date = Date int | InvalidDate

record 'n MarketTick =
  symbol :: string
  price :: 'n
  volume :: 'n
  timestamp :: Date

definition BATCH_SIZE :: nat where
  "BATCH_SIZE = 100"

definition BATCH_INTERVAL :: nat where
  "BATCH_INTERVAL = 1000"

text \<open>
  A call written with spread syntax passes every element of the array as an argument,
  and an engine accepts only so many arguments: above its limit the call raises
  \<^verbatim>\<open>RangeError\<close> before the callee runs. The limit depends on the engine and its
  stack size, so it is a parameter, \<open>maxArgs\<close>, of every function that can reach the
  one spread call of the worker, \<^verbatim>\<open>unshift(...batch)\<close> on line 69.
\<close>

text \<open>
  The strings the worker stores in Redis are renderings made by library calls. A stored
  string is represented by the call that produced it: \<open>NumberString p\<close> is
  \<^verbatim>\<open>p.toString()\<close> and \<open>ISOString ms\<close> is \<^verbatim>\<open>toISOString()\<close> of the valid date with
  time value \<open>ms\<close>. A message published on a channel is \<^verbatim>\<open>JSON.stringify(tick)\<close> and
  is represented by the tick.
\<close>

datatype 'n redis_string = NumberString 'n | ISOString int

datatype error = RedisError | RangeError | ClickHouseError

text \<open>
  A processTick invocation suspended at one of its first three \<^verbatim>\<open>await\<close>s (lines 34,
  35 and 38 of the source); the second carries the ISO string already computed as the
  argument of the pending call.
\<close>

datatype 'n frame =
  AwaitSetPrice "'n MarketTick"
| AwaitSetTimestamp "'n MarketTick" int
| AwaitPublish "'n MarketTick"

text \<open>
  The state: the two fields of the ingestor object, the Redis server as the worker's
  client sees it (key space, messages published, connection), the ClickHouse client
  (every batch handed to \<^verbatim>\<open>insert\<close> in call order, the batches whose insert
  succeeded in completion order, connection), and, for interleaved executions, the
  processTick invocations suspended at an await and the inserts that have not settled.
  \<open>batchInterval\<close> is True while the periodic timer is armed.
\<close>

record 'n system =
  tickBuffer :: "'n MarketTick list"
  batchInterval :: bool
  redis_keys :: "string \<rightharpoonup> 'n redis_string"
  redis_published :: "(string \<times> 'n MarketTick) list"
  redis_open :: bool
  insertCalls :: "'n MarketTick list list"
  ticks_table :: "'n MarketTick list list"
  clickhouse_open :: bool
  suspended :: "'n frame list"
  inflight :: "'n MarketTick list list"

text \<open>How the awaited external calls of one processTick invocation settle.\<close>

record outcome =
  set_price_ok :: bool
  set_timestamp_ok :: bool
  publish_ok :: bool
  insert_ok :: bool

definition all_ok :: outcome where
  "all_ok = \<lparr>set_price_ok = True, set_timestamp_ok = True, publish_ok = True, insert_ok = True\<rparr>"

section \<open>The external clients\<close>

definition redis_set :: "string \<Rightarrow> 'n redis_string \<Rightarrow> 'n system \<Rightarrow> 'n system" where
  "redis_set k v w = w\<lparr>redis_keys := (redis_keys w)(k \<mapsto> v)\<rparr>"

definition redis_publish :: "string \<Rightarrow> 'n MarketTick \<Rightarrow> 'n system \<Rightarrow> 'n system" where
  "redis_publish channel msg w = w\<lparr>redis_published := redis_published w @ [(channel, msg)]\<rparr>"

text \<open>The object literal built for each row of an insert (lines 56 to 61).\<close>

definition row_of :: "'n MarketTick \<Rightarrow> 'n MarketTick" where
  "row_of tick = \<lparr>symbol = symbol tick, price = price tick, volume = volume tick,
     timestamp = timestamp tick\<rparr>"

section \<open>The ingestor\<close>

text \<open>
  The constructor: an empty buffer, and \<^verbatim>\<open>startBatchProcessor\<close> arms the timer. The
  Redis key space \<open>kv\<close> is whatever the server holds when the worker starts.
\<close>

definition startBatchProcessor :: "'n system \<Rightarrow> 'n system" where
  "startBatchProcessor w = w\<lparr>batchInterval := True\<rparr>"

definition MarketDataIngestor :: "(string \<rightharpoonup> 'n redis_string) \<Rightarrow> 'n system" where
  "MarketDataIngestor kv = startBatchProcessor
     \<lparr>tickBuffer = [], batchInterval = False, redis_keys = kv, redis_published = [],
      redis_open = True, insertCalls = [], ticks_table = [], clickhouse_open = True,
      suspended = [], inflight = []\<rparr>"

text \<open>
  \<^verbatim>\<open>flushBatch\<close> up to its await (lines 49 to 54): return on an empty buffer; otherwise
  \<^verbatim>\<open>splice(0, length)\<close> empties the buffer and the batch is handed to
  \<^verbatim>\<open>clickhouse.insert\<close>. The result is the batch whose insert is now pending, if any.
\<close>

definition flushBatch_take :: "'n system \<Rightarrow> 'n MarketTick list option \<times> 'n system" where
  "flushBatch_take w =
     (if length (tickBuffer w) = 0 then (None, w)
      else
        let batch = tickBuffer w;
            w1 = w\<lparr>tickBuffer := []\<rparr>
        in (Some batch, w1\<lparr>insertCalls := insertCalls w1 @ [map row_of batch]\<rparr>))"

text \<open>
  \<^verbatim>\<open>flushBatch\<close> after its await (lines 65 to 70): on success the rows are in the
  table; on failure the catch block puts the batch back with \<^verbatim>\<open>unshift(...batch)\<close>.
  When the batch has more ticks than the engine accepts as arguments, that call raises
  \<^verbatim>\<open>RangeError\<close> inside the catch block: nothing is put back, the batch is gone, and
  \<^verbatim>\<open>flushBatch\<close> rejects with the error.
\<close>

definition flushBatch_settle ::
  "nat \<Rightarrow> bool \<Rightarrow> 'n MarketTick list \<Rightarrow> 'n system \<Rightarrow> error option \<times> 'n system" where
  "flushBatch_settle maxArgs ok batch w =
     (if ok then (None, w\<lparr>ticks_table := ticks_table w @ [map row_of batch]\<rparr>)
      else if length batch \<le> maxArgs then (None, w\<lparr>tickBuffer := batch @ tickBuffer w\<rparr>)
      else (Some RangeError, w))"

text \<open>\<^verbatim>\<open>flushBatch\<close> awaited with nothing else running in between.\<close>

definition flushBatch :: "nat \<Rightarrow> bool \<Rightarrow> 'n system \<Rightarrow> error option \<times> 'n system" where
  "flushBatch maxArgs ok w =
     (case flushBatch_take w of
        (None, w1) \<Rightarrow> (None, w1)
      | (Some batch, w1) \<Rightarrow> flushBatch_settle maxArgs ok batch w1)"

text \<open>
  \<^verbatim>\<open>processTick\<close> awaited with nothing else running in between. A rejected Redis call
  or the \<^verbatim>\<open>RangeError\<close> of \<^verbatim>\<open>toISOString\<close> ends the invocation with that error; what
  was written before stays written. A failed insert is caught inside \<^verbatim>\<open>flushBatch\<close>;
  an error raised by \<^verbatim>\<open>flushBatch\<close> itself ends the invocation too.
\<close>

definition processTick ::
  "nat \<Rightarrow> outcome \<Rightarrow> 'n MarketTick \<Rightarrow> 'n system \<Rightarrow> error option \<times> 'n system" where
  "processTick maxArgs io tick w =
     (if \<not> set_price_ok io then (Some RedisError, w)
      else
        let w1 = redis_set (symbol tick) (NumberString (price tick)) w in
        case timestamp tick of
          InvalidDate \<Rightarrow> (Some RangeError, w1)
        | Date ms \<Rightarrow>
            if \<not> set_timestamp_ok io then (Some RedisError, w1)
            else
              let w2 = redis_set (symbol tick @ '':timestamp'') (ISOString ms) w1 in
              if \<not> publish_ok io then (Some RedisError, w2)
              else
                let w3 = redis_publish ''market:ticks'' tick w2;
                    w4 = w3\<lparr>tickBuffer := tickBuffer w3 @ [tick]\<rparr>
                in if length (tickBuffer w4) \<ge> BATCH_SIZE
                   then flushBatch maxArgs (insert_ok io) w4
                   else (None, w4))"

text \<open>Lines 80 to 82 of \<^verbatim>\<open>shutdown\<close>: the interval timer is cleared.\<close>

definition clearInterval :: "'n system \<Rightarrow> 'n system" where
  "clearInterval w = (if batchInterval w then w\<lparr>batchInterval := False\<rparr> else w)"

text \<open>
  \<^verbatim>\<open>shutdown\<close> (lines 79 to 86): clear the timer, one \<^verbatim>\<open>flushBatch\<close>, then
  \<^verbatim>\<open>redis.quit()\<close> and \<^verbatim>\<open>clickhouse.close()\<close>. The three flags say how the
  insert, the quit and the close settle. An error of \<^verbatim>\<open>flushBatch\<close>, or a rejected
  quit or close, ends \<^verbatim>\<open>shutdown\<close> there: the later calls are not made.
\<close>

definition shutdown ::
  "nat \<Rightarrow> bool \<Rightarrow> bool \<Rightarrow> bool \<Rightarrow> 'n system \<Rightarrow> error option \<times> 'n system" where
  "shutdown maxArgs ins_ok quit_ok close_ok w =
     (let w1 = clearInterval w in
      case flushBatch maxArgs ins_ok w1 of
        (Some e, w2) \<Rightarrow> (Some e, w2)
      | (None, w2) \<Rightarrow>
          if \<not> quit_ok then (Some RedisError, w2)
          else
            let w3 = w2\<lparr>redis_open := False\<rparr>
            in if \<not> close_ok then (Some ClickHouseError, w3)
               else (None, w3\<lparr>clickhouse_open := False\<rparr>))"

section \<open>Sequential executions\<close>

text \<open>
  One operation at a time, each awaited to its end: a processTick call with the way its
  external calls settle, or a firing of the interval callback (lines 74 to 76) with the
  way its insert settles. The state after an operation is the state it leaves behind,
  whether it returned or raised.
\<close>

datatype 'n op = ProcessTick "'n MarketTick" outcome | TimerFlush bool

fun exec :: "nat \<Rightarrow> 'n op \<Rightarrow> 'n system \<Rightarrow> 'n system" where
  "exec maxArgs (ProcessTick tick io) w = snd (processTick maxArgs io tick w)"
| "exec maxArgs (TimerFlush ok) w = (if batchInterval w then snd (flushBatch maxArgs ok w) else w)"

fun run :: "nat \<Rightarrow> 'n op list \<Rightarrow> 'n system \<Rightarrow> 'n system" where
  "run maxArgs [] w = w"
| "run maxArgs (x # xs) w = run maxArgs xs (exec maxArgs x w)"

text \<open>
  The Redis part of a processTick call goes through: both cache writes and the publish
  succeed, and the date is valid. Exactly then line 41 is reached.
\<close>

definition cache_and_publish_ok :: "outcome \<Rightarrow> 'n MarketTick \<Rightarrow> bool" where
  "cache_and_publish_ok io tick =
     (set_price_ok io \<and> timestamp tick \<noteq> InvalidDate \<and> set_timestamp_ok io \<and> publish_ok io)"

text \<open>A processTick call whose tick reaches the buffer.\<close>

fun accepted :: "'n op \<Rightarrow> bool" where
  "accepted (ProcessTick tick io) = cache_and_publish_ok io tick"
| "accepted (TimerFlush ok) = False"

text \<open>
  An operation all of whose external calls succeed: the tick of a processTick call is
  ingested and every durable write succeeds.
\<close>

fun succeeds :: "'n op \<Rightarrow> bool" where
  "succeeds (ProcessTick tick io) = (cache_and_publish_ok io tick \<and> insert_ok io)"
| "succeeds (TimerFlush ok) = ok"

fun ticks_of :: "'n op list \<Rightarrow> 'n MarketTick list" where
  "ticks_of [] = []"
| "ticks_of (ProcessTick tick io # xs) = tick # ticks_of xs"
| "ticks_of (TimerFlush ok # xs) = ticks_of xs"

section \<open>Interleaved executions\<close>

text \<open>
  The event loop runs one callback at a time, and a callback runs until it reaches an
  await. An event is one such run: a call of processTick (up to its first await, line
  34), the settling of the Redis call that the \<open>k\<close>-th suspended invocation awaits
  (the invocation then runs to its next await or to its end), a firing of the interval
  callback (up to the await of the insert), or the settling of the \<open>k\<close>-th pending
  insert. The effect of a Redis call on the server is placed at its settling. An event
  that names no suspended invocation or pending insert changes nothing. The state
  after an event is the state the callback leaves behind, whether it returned or raised.
\<close>

datatype 'n event =
  Call "'n MarketTick"
| Settle nat bool
| TimerFires
| InsertSettles nat bool

definition remove_nth :: "nat \<Rightarrow> 'a list \<Rightarrow> 'a list" where
  "remove_nth k xs = take k xs @ drop (Suc k) xs"

text \<open>\<^verbatim>\<open>flushBatch\<close> run up to its await: the insert, if one was issued, is now pending.\<close>

definition flushBatch_start :: "'n system \<Rightarrow> 'n system" where
  "flushBatch_start w =
     (case flushBatch_take w of
        (None, w1) \<Rightarrow> w1
      | (Some batch, w1) \<Rightarrow> w1\<lparr>inflight := inflight w1 @ [batch]\<rparr>)"

fun resume :: "bool \<Rightarrow> nat \<Rightarrow> 'n frame \<Rightarrow> 'n system \<Rightarrow> 'n system" where
  "resume ok k (AwaitSetPrice tick) w =
     (if \<not> ok then w\<lparr>suspended := remove_nth k (suspended w)\<rparr>
      else
        let w1 = redis_set (symbol tick) (NumberString (price tick)) w in
        case timestamp tick of
          InvalidDate \<Rightarrow> w1\<lparr>suspended := remove_nth k (suspended w1)\<rparr>
        | Date ms \<Rightarrow> w1\<lparr>suspended := (suspended w1)[k := AwaitSetTimestamp tick ms]\<rparr>)"
| "resume ok k (AwaitSetTimestamp tick ms) w =
     (if \<not> ok then w\<lparr>suspended := remove_nth k (suspended w)\<rparr>
      else
        let w2 = redis_set (symbol tick @ '':timestamp'') (ISOString ms) w
        in w2\<lparr>suspended := (suspended w2)[k := AwaitPublish tick]\<rparr>)"
| "resume ok k (AwaitPublish tick) w =
     (if \<not> ok then w\<lparr>suspended := remove_nth k (suspended w)\<rparr>
      else
        let w3 = redis_publish ''market:ticks'' tick (w\<lparr>suspended := remove_nth k (suspended w)\<rparr>);
            w4 = w3\<lparr>tickBuffer := tickBuffer w3 @ [tick]\<rparr>
        in if length (tickBuffer w4) \<ge> BATCH_SIZE then flushBatch_start w4 else w4)"

fun step :: "nat \<Rightarrow> 'n event \<Rightarrow> 'n system \<Rightarrow> 'n system" where
  "step maxArgs (Call tick) w = w\<lparr>suspended := suspended w @ [AwaitSetPrice tick]\<rparr>"
| "step maxArgs (Settle k ok) w =
     (if k < length (suspended w) then resume ok k (suspended w ! k) w else w)"
| "step maxArgs TimerFires w = (if batchInterval w then flushBatch_start w else w)"
| "step maxArgs (InsertSettles k ok) w =
     (if k < length (inflight w)
      then snd (flushBatch_settle maxArgs ok (inflight w ! k)
                  (w\<lparr>inflight := remove_nth k (inflight w)\<rparr>))
      else w)"

fun execute :: "nat \<Rightarrow> 'n event list \<Rightarrow> 'n system \<Rightarrow> 'n system" where
  "execute maxArgs [] w = w"
| "execute maxArgs (e # es) w = execute maxArgs es (step maxArgs e w)"

text \<open>
  The events of one processTick call that runs alone and whose Redis calls all succeed.
\<close>

definition ingest :: "'n MarketTick \<Rightarrow> 'n event list" where
  "ingest tick = [Call tick, Settle 0 True, Settle 0 True, Settle 0 True]"

text \<open>
  \<^verbatim>\<open>shutdown\<close> up to its first await (lines 80 to 83): the timer is cleared and
  \<^verbatim>\<open>flushBatch\<close> has run to the await of its insert.
\<close>

definition shutdown_start :: "'n system \<Rightarrow> 'n system" where
  "shutdown_start w = flushBatch_start (clearInterval w)"

section \<open>Auxiliary notions and example data\<close>

text \<open>The state in which a tick has been cached, published and pushed (lines 34 to 41).\<close>

definition pushed :: "'n MarketTick \<Rightarrow> int \<Rightarrow> 'n system \<Rightarrow> 'n system" where
  "pushed tick ms w =
     (redis_publish ''market:ticks'' tick
        (redis_set (symbol tick @ '':timestamp'') (ISOString ms)
           (redis_set (symbol tick) (NumberString (price tick)) w)))
     \<lparr>tickBuffer := tickBuffer w @ [tick]\<rparr>"

text \<open>A tick for AAPL with an integral price, observed \<open>ms\<close> milliseconds after the epoch.\<close>

definition aapl :: "int \<Rightarrow> int \<Rightarrow> int MarketTick" where
  "aapl p ms = \<lparr>symbol = ''AAPL'', price = p, volume = 100, timestamp = Date ms\<rparr>"

text \<open>An event in which a durable write fails.\<close>

fun insert_fails :: "'n event \<Rightarrow> bool" where
  "insert_fails (InsertSettles k ok) = (\<not> ok)"
| "insert_fails e = False"

text \<open>
  What holds of an interleaved execution as long as no durable write fails: the buffer
  is below the threshold, the insert calls in call order followed by the buffer are the
  ticks published (a tick is published and pushed in one step), no batch exceeds
  BATCH_SIZE, and every batch handed to the writer is stored or still in flight.
\<close>

definition batch_path_inv :: "'n system \<Rightarrow> bool" where
  "batch_path_inv w \<longleftrightarrow>
     length (tickBuffer w) < BATCH_SIZE \<and>
     concat (insertCalls w) @ tickBuffer w = map snd (redis_published w) \<and>
     (\<forall>b\<in>set (insertCalls w). length b \<le> BATCH_SIZE) \<and>
     mset (ticks_table w) + mset (inflight w) = mset (insertCalls w)"

text \<open>
  The processTick calls for \<open>n\<close> AAPL ticks with prices and times 0 to \<open>n - 1\<close>, every
  external call succeeding.
\<close>

definition aapl_ticks :: "nat \<Rightarrow> int op list" where
  "aapl_ticks n = map (\<lambda>i. ProcessTick (aapl (int i) (int i)) all_ok) [0..<n]"

section \<open>Basic facts\<close>

lemma row_of_id: "row_of tick = tick"
  by (simp add: row_of_def)

lemma map_row_of: "map row_of batch = batch"
  by (induction batch) (simp_all add: row_of_id)

lemma BATCH_SIZE_pos: "0 < BATCH_SIZE"
  by (simp add: BATCH_SIZE_def)

lemma flushBatch_empty: "tickBuffer w = [] \<Longrightarrow> flushBatch maxArgs ok w = (None, w)"
  by (simp add: flushBatch_def flushBatch_take_def)

lemma flushBatch_error:
  "fst (flushBatch maxArgs ok w)
     = (if \<not> ok \<and> maxArgs < length (tickBuffer w) then Some RangeError else None)"
  by (simp add: flushBatch_def flushBatch_take_def flushBatch_settle_def Let_def)

lemma flushBatch_tickBuffer:
  "tickBuffer (snd (flushBatch maxArgs ok w))
     = (if ok \<or> maxArgs < length (tickBuffer w) then [] else tickBuffer w)"
  by (simp add: flushBatch_def flushBatch_take_def flushBatch_settle_def Let_def)

lemma flushBatch_insertCalls:
  "insertCalls (snd (flushBatch maxArgs ok w)) = (if tickBuffer w = [] then insertCalls w else insertCalls w @ [tickBuffer w])"
  by (simp add: flushBatch_def flushBatch_take_def flushBatch_settle_def Let_def map_row_of)

lemma flushBatch_ticks_table:
  "ticks_table (snd (flushBatch maxArgs ok w)) = (if tickBuffer w = [] \<or> \<not> ok then ticks_table w else ticks_table w @ [tickBuffer w])"
  by (simp add: flushBatch_def flushBatch_take_def flushBatch_settle_def Let_def map_row_of)

lemma flushBatch_other:
  "redis_keys (snd (flushBatch maxArgs ok w)) = redis_keys w"
  "redis_published (snd (flushBatch maxArgs ok w)) = redis_published w"
  "batchInterval (snd (flushBatch maxArgs ok w)) = batchInterval w"
  "redis_open (snd (flushBatch maxArgs ok w)) = redis_open w"
  "clickhouse_open (snd (flushBatch maxArgs ok w)) = clickhouse_open w"
  "suspended (snd (flushBatch maxArgs ok w)) = suspended w"
  "inflight (snd (flushBatch maxArgs ok w)) = inflight w"
  by (simp_all add: flushBatch_def flushBatch_take_def flushBatch_settle_def Let_def)

lemmas flushBatch_fields = flushBatch_tickBuffer flushBatch_insertCalls flushBatch_ticks_table flushBatch_other

lemma flushBatch_start_fields:
  "tickBuffer (flushBatch_start w) = []"
  "insertCalls (flushBatch_start w) = (if tickBuffer w = [] then insertCalls w else insertCalls w @ [tickBuffer w])"
  "inflight (flushBatch_start w) = (if tickBuffer w = [] then inflight w else inflight w @ [tickBuffer w])"
  "ticks_table (flushBatch_start w) = ticks_table w"
  "redis_keys (flushBatch_start w) = redis_keys w"
  "batchInterval (flushBatch_start w) = batchInterval w"
  "suspended (flushBatch_start w) = suspended w"
  by (simp_all add: flushBatch_start_def flushBatch_take_def Let_def map_row_of)

lemma flushBatch_start_empty: "tickBuffer w = [] \<Longrightarrow> flushBatch_start w = w"
  by (simp add: flushBatch_start_def flushBatch_take_def)

lemma flushBatch_settle_fields:
  "fst (flushBatch_settle maxArgs ok batch w)
     = (if \<not> ok \<and> maxArgs < length batch then Some RangeError else None)"
  "tickBuffer (snd (flushBatch_settle maxArgs ok batch w))
     = (if ok \<or> maxArgs < length batch then tickBuffer w else batch @ tickBuffer w)"
  "insertCalls (snd (flushBatch_settle maxArgs ok batch w)) = insertCalls w"
  "ticks_table (snd (flushBatch_settle maxArgs ok batch w)) = (if ok then ticks_table w @ [batch] else ticks_table w)"
  "inflight (snd (flushBatch_settle maxArgs ok batch w)) = inflight w"
  "redis_keys (snd (flushBatch_settle maxArgs ok batch w)) = redis_keys w"
  "batchInterval (snd (flushBatch_settle maxArgs ok batch w)) = batchInterval w"
  "suspended (snd (flushBatch_settle maxArgs ok batch w)) = suspended w"
  by (simp_all add: flushBatch_settle_def map_row_of)

text \<open>
  Beyond the engine's argument limit the catch block itself fails: the batch is neither
  stored nor put back, and the flush ends with the error.
\<close>

lemma flushBatch_settle_beyond_limit:
  "maxArgs < length batch \<Longrightarrow> flushBatch_settle maxArgs False batch w = (Some RangeError, w)"
  by (simp add: flushBatch_settle_def)

lemma flush_published:
  "redis_published (flushBatch_start w) = redis_published w"
  "redis_published (snd (flushBatch_settle maxArgs ok batch w)) = redis_published w"
  by (simp_all add: flushBatch_start_def flushBatch_take_def flushBatch_settle_def Let_def)


lemma shutdown_fields:
  "tickBuffer (snd (shutdown maxArgs ins_ok quit_ok close_ok w)) = tickBuffer (snd (flushBatch maxArgs ins_ok w))"
  "insertCalls (snd (shutdown maxArgs ins_ok quit_ok close_ok w)) = insertCalls (snd (flushBatch maxArgs ins_ok w))"
  "ticks_table (snd (shutdown maxArgs ins_ok quit_ok close_ok w)) = ticks_table (snd (flushBatch maxArgs ins_ok w))"
  "redis_keys (snd (shutdown maxArgs ins_ok quit_ok close_ok w)) = redis_keys w"
  "batchInterval (snd (shutdown maxArgs ins_ok quit_ok close_ok w)) = False"
  by (simp_all add: shutdown_def clearInterval_def Let_def flushBatch_def flushBatch_take_def
      flushBatch_settle_def split: prod.split option.split)

lemma pushed_fields:
  "tickBuffer (pushed tick ms w) = tickBuffer w @ [tick]"
  "insertCalls (pushed tick ms w) = insertCalls w"
  "ticks_table (pushed tick ms w) = ticks_table w"
  "batchInterval (pushed tick ms w) = batchInterval w"
  "redis_keys (pushed tick ms w) =
     (redis_keys w)(symbol tick \<mapsto> NumberString (price tick), symbol tick @ '':timestamp'' \<mapsto> ISOString ms)"
  "redis_published (pushed tick ms w) = redis_published w @ [(''market:ticks'', tick)]"
  by (simp_all add: pushed_def redis_set_def redis_publish_def)

lemma processTick_accepts:
  assumes "cache_and_publish_ok io tick"
  shows "\<exists>ms. timestamp tick = Date ms \<and>
     processTick maxArgs io tick w =
       (if length (tickBuffer w) + 1 \<ge> BATCH_SIZE
        then flushBatch maxArgs (insert_ok io) (pushed tick ms w) else (None, pushed tick ms w))"
proof (cases "timestamp tick")
  case (Date ms)
  with assms show ?thesis
    by (simp add: processTick_def cache_and_publish_ok_def Let_def pushed_def
        redis_set_def redis_publish_def)
next
  case InvalidDate
  with assms show ?thesis by (simp add: cache_and_publish_ok_def)
qed

lemma processTick_rejects:
  assumes "\<not> cache_and_publish_ok io tick"
  shows "fst (processTick maxArgs io tick w) \<noteq> None"
    and "tickBuffer (snd (processTick maxArgs io tick w)) = tickBuffer w"
    and "insertCalls (snd (processTick maxArgs io tick w)) = insertCalls w"
    and "ticks_table (snd (processTick maxArgs io tick w)) = ticks_table w"
    and "batchInterval (snd (processTick maxArgs io tick w)) = batchInterval w"
  using assms
  by (cases "timestamp tick";
      simp add: processTick_def cache_and_publish_ok_def Let_def redis_set_def redis_publish_def)+

lemma processTick_accepted_fields:
  assumes "cache_and_publish_ok io tick"
  shows "fst (processTick maxArgs io tick w) =
           (if BATCH_SIZE \<le> length (tickBuffer w) + 1 \<and> \<not> insert_ok io \<and>
               maxArgs < length (tickBuffer w) + 1
            then Some RangeError else None)"
    and "tickBuffer (snd (processTick maxArgs io tick w)) =
           (if BATCH_SIZE \<le> length (tickBuffer w) + 1 \<and>
               (insert_ok io \<or> maxArgs < length (tickBuffer w) + 1)
            then [] else tickBuffer w @ [tick])"
    and "insertCalls (snd (processTick maxArgs io tick w)) =
           (if BATCH_SIZE \<le> length (tickBuffer w) + 1 then insertCalls w @ [tickBuffer w @ [tick]]
            else insertCalls w)"
    and "ticks_table (snd (processTick maxArgs io tick w)) =
           (if BATCH_SIZE \<le> length (tickBuffer w) + 1 \<and> insert_ok io
            then ticks_table w @ [tickBuffer w @ [tick]] else ticks_table w)"
    and "batchInterval (snd (processTick maxArgs io tick w)) = batchInterval w"
    and "redis_published (snd (processTick maxArgs io tick w)) = redis_published w @ [(''market:ticks'', tick)]"
    and "timestamp tick = Date ms \<Longrightarrow> redis_keys (snd (processTick maxArgs io tick w)) =
           (redis_keys w)(symbol tick \<mapsto> NumberString (price tick),
                          symbol tick @ '':timestamp'' \<mapsto> ISOString ms)"
proof -
  from processTick_accepts [OF assms, where w = w and maxArgs = maxArgs] obtain ms' where d: "timestamp tick = Date ms'"
    and eq: "processTick maxArgs io tick w =
       (if length (tickBuffer w) + 1 \<ge> BATCH_SIZE
        then flushBatch maxArgs (insert_ok io) (pushed tick ms' w) else (None, pushed tick ms' w))"
    by blast
  show "fst (processTick maxArgs io tick w) =
           (if BATCH_SIZE \<le> length (tickBuffer w) + 1 \<and> \<not> insert_ok io \<and>
               maxArgs < length (tickBuffer w) + 1
            then Some RangeError else None)"
    by (simp add: eq flushBatch_error pushed_fields)
  show "tickBuffer (snd (processTick maxArgs io tick w)) =
           (if BATCH_SIZE \<le> length (tickBuffer w) + 1 \<and>
               (insert_ok io \<or> maxArgs < length (tickBuffer w) + 1)
            then [] else tickBuffer w @ [tick])"
    by (simp add: eq flushBatch_fields flushBatch_error pushed_fields)
  show "insertCalls (snd (processTick maxArgs io tick w)) =
           (if BATCH_SIZE \<le> length (tickBuffer w) + 1 then insertCalls w @ [tickBuffer w @ [tick]]
            else insertCalls w)"
    by (simp add: eq flushBatch_fields flushBatch_error pushed_fields)
  show "ticks_table (snd (processTick maxArgs io tick w)) =
           (if BATCH_SIZE \<le> length (tickBuffer w) + 1 \<and> insert_ok io
            then ticks_table w @ [tickBuffer w @ [tick]] else ticks_table w)"
    by (simp add: eq flushBatch_fields flushBatch_error pushed_fields)
  show "batchInterval (snd (processTick maxArgs io tick w)) = batchInterval w"
    by (simp add: eq flushBatch_fields flushBatch_error pushed_fields)
  show "redis_published (snd (processTick maxArgs io tick w)) = redis_published w @ [(''market:ticks'', tick)]"
    by (simp add: eq flushBatch_fields flushBatch_error pushed_fields)
  show "redis_keys (snd (processTick maxArgs io tick w)) =
           (redis_keys w)(symbol tick \<mapsto> NumberString (price tick),
                          symbol tick @ '':timestamp'' \<mapsto> ISOString ms)"
    if "timestamp tick = Date ms"
    using that d by (simp add: eq flushBatch_fields flushBatch_error pushed_fields)
qed

section \<open>Facts about sequential executions\<close>

lemma run_append: "run maxArgs (xs @ ys) w = run maxArgs ys (run maxArgs xs w)"
  by (induction xs arbitrary: w) simp_all

lemma ticks_of_append: "ticks_of (xs @ ys) = ticks_of xs @ ticks_of ys"
  by (induction xs rule: ticks_of.induct) simp_all

lemma accepted_ticks_of: "\<forall>x\<in>set ops. accepted x \<Longrightarrow> length (ticks_of ops) = length ops"
  by (induction ops rule: ticks_of.induct) simp_all

lemma accepted_take: "\<forall>x\<in>set ops. accepted x \<Longrightarrow> \<forall>x\<in>set (take n ops). accepted x"
  by (auto dest: in_set_takeD)

lemma accepted_drop: "\<forall>x\<in>set ops. accepted x \<Longrightarrow> \<forall>x\<in>set (drop n ops). accepted x"
  by (auto dest: in_set_dropD)

lemma succeeds_take: "\<forall>x\<in>set ops. succeeds x \<Longrightarrow> \<forall>x\<in>set (take n ops). succeeds x"
  by (auto dest: in_set_takeD)

lemma succeeds_drop: "\<forall>x\<in>set ops. succeeds x \<Longrightarrow> \<forall>x\<in>set (drop n ops). succeeds x"
  by (auto dest: in_set_dropD)

lemma succeeds_ProcessTick_cases:
  assumes "succeeds x" and "accepted x"
  obtains tick io where "x = ProcessTick tick io" and "cache_and_publish_ok io tick" and "insert_ok io"
  using assms by (cases x) simp_all

lemma exec_batchInterval: "batchInterval (exec maxArgs x w) = batchInterval w"
proof (cases x)
  case (ProcessTick tick io)
  then show ?thesis
    by (cases "cache_and_publish_ok io tick")
       (simp_all add: processTick_rejects processTick_accepted_fields)
next
  case (TimerFlush ok)
  then show ?thesis by (simp add: flushBatch_fields)
qed

lemma run_batchInterval: "batchInterval (run maxArgs ops w) = batchInterval w"
  by (induction ops arbitrary: w) (simp_all add: exec_batchInterval)

lemma exec_insertCalls:
  "insertCalls (exec maxArgs x w) = insertCalls w \<or>
   (\<exists>b. b \<noteq> [] \<and> insertCalls (exec maxArgs x w) = insertCalls w @ [b])"
proof (cases x)
  case (ProcessTick tick io)
  then show ?thesis
    by (cases "cache_and_publish_ok io tick")
       (simp_all add: processTick_rejects processTick_accepted_fields)
next
  case (TimerFlush ok)
  then show ?thesis by (simp add: flushBatch_fields)
qed

lemma run_nonempty_batches:
  "\<forall>b\<in>set (insertCalls w). b \<noteq> [] \<Longrightarrow> \<forall>b\<in>set (insertCalls (run maxArgs ops w)). b \<noteq> []"
proof (induction ops arbitrary: w)
  case Nil
  then show ?case by simp
next
  case (Cons x xs)
  from exec_insertCalls [where x = x and w = w and maxArgs = maxArgs] Cons.prems have "\<forall>b\<in>set (insertCalls (exec maxArgs x w)). b \<noteq> []"
    by auto
  then show ?case using Cons.IH by simp
qed

lemma run_fill:
  assumes "\<forall>x\<in>set ops. accepted x"
    and "length (tickBuffer w) + length ops < BATCH_SIZE"
  shows "tickBuffer (run maxArgs ops w) = tickBuffer w @ ticks_of ops \<and>
         insertCalls (run maxArgs ops w) = insertCalls w \<and>
         ticks_table (run maxArgs ops w) = ticks_table w"
  using assms
proof (induction ops arbitrary: w)
  case Nil
  then show ?case by simp
next
  case (Cons x xs)
  from Cons.prems obtain tick io where x: "x = ProcessTick tick io" and ok: "cache_and_publish_ok io tick"
    by (cases x) simp_all
  let ?w = "snd (processTick maxArgs io tick w)"
  from Cons.prems have small: "\<not> BATCH_SIZE \<le> length (tickBuffer w) + 1" by simp
  have b: "tickBuffer ?w = tickBuffer w @ [tick]" and c: "insertCalls ?w = insertCalls w"
    and t: "ticks_table ?w = ticks_table w"
    using small by (simp_all add: processTick_accepted_fields [OF ok])
  have "tickBuffer (run maxArgs xs ?w) = tickBuffer ?w @ ticks_of xs \<and>
        insertCalls (run maxArgs xs ?w) = insertCalls ?w \<and> ticks_table (run maxArgs xs ?w) = ticks_table ?w"
    using Cons.prems b by (intro Cons.IH) simp_all
  then show ?case by (simp add: x b c t)
qed

text \<open>
  One successful operation keeps the buffer below the threshold, the table equal to the
  list of insert calls, and every batch within BATCH_SIZE; its tick, if any, goes to
  the end of what was written or buffered.
\<close>

lemma exec_succeeds:
  assumes ok: "succeeds x"
    and below: "length (tickBuffer w) < BATCH_SIZE"
    and table: "ticks_table w = insertCalls w"
    and bound: "\<forall>b\<in>set (insertCalls w). length b \<le> BATCH_SIZE"
  shows "concat (insertCalls (exec maxArgs x w)) @ tickBuffer (exec maxArgs x w)
           = concat (insertCalls w) @ tickBuffer w @ ticks_of [x] \<and>
         length (tickBuffer (exec maxArgs x w)) < BATCH_SIZE \<and>
         ticks_table (exec maxArgs x w) = insertCalls (exec maxArgs x w) \<and>
         (\<forall>b\<in>set (insertCalls (exec maxArgs x w)). length b \<le> BATCH_SIZE)"
proof (cases x)
  case (ProcessTick tick io)
  with ok have acc: "cache_and_publish_ok io tick" and ins: "insert_ok io"
    by simp_all
  show ?thesis
  proof (cases "BATCH_SIZE \<le> length (tickBuffer w) + 1")
    case True
    with below have "length (tickBuffer w @ [tick]) \<le> BATCH_SIZE"
      by simp
    with True ins table bound show ?thesis
      by (simp add: ProcessTick processTick_accepted_fields [OF acc] BATCH_SIZE_pos)
  next
    case False
    with table bound show ?thesis
      by (simp add: ProcessTick processTick_accepted_fields [OF acc])
  qed
next
  case (TimerFlush flag)
  with ok have flag by simp
  with below table bound show ?thesis
    by (simp add: TimerFlush flushBatch_fields BATCH_SIZE_pos)
qed

lemma run_succeeds:
  assumes "\<forall>x\<in>set ops. succeeds x"
    and "length (tickBuffer w) < BATCH_SIZE"
    and "ticks_table w = insertCalls w"
    and "\<forall>b\<in>set (insertCalls w). length b \<le> BATCH_SIZE"
  shows "concat (insertCalls (run maxArgs ops w)) @ tickBuffer (run maxArgs ops w)
           = concat (insertCalls w) @ tickBuffer w @ ticks_of ops \<and>
         length (tickBuffer (run maxArgs ops w)) < BATCH_SIZE \<and>
         ticks_table (run maxArgs ops w) = insertCalls (run maxArgs ops w) \<and>
         (\<forall>b\<in>set (insertCalls (run maxArgs ops w)). length b \<le> BATCH_SIZE)"
  using assms
proof (induction ops arbitrary: w)
  case Nil
  then show ?case by simp
next
  case (Cons x xs)
  from Cons.prems have x: "succeeds x" and xs: "\<forall>x\<in>set xs. succeeds x"
    by simp_all
  note one = exec_succeeds [OF x Cons.prems(2) Cons.prems(3) Cons.prems(4)]
  from one have rest: "concat (insertCalls (run maxArgs xs (exec maxArgs x w))) @ tickBuffer (run maxArgs xs (exec maxArgs x w))
           = concat (insertCalls (exec maxArgs x w)) @ tickBuffer (exec maxArgs x w) @ ticks_of xs \<and>
         length (tickBuffer (run maxArgs xs (exec maxArgs x w))) < BATCH_SIZE \<and>
         ticks_table (run maxArgs xs (exec maxArgs x w)) = insertCalls (run maxArgs xs (exec maxArgs x w)) \<and>
         (\<forall>b\<in>set (insertCalls (run maxArgs xs (exec maxArgs x w))). length b \<le> BATCH_SIZE)"
    by (intro Cons.IH [OF xs]) simp_all
  have "ticks_of (x # xs) = ticks_of [x] @ ticks_of xs"
    using ticks_of_append [of "[x]" xs] by simp
  with one rest show ?case
    by (simp del: ticks_of.simps)
qed

text \<open>The processTick call that brings the buffer to BATCH_SIZE hands all of it to the writer.\<close>

lemma run_reach_threshold:
  assumes "\<forall>x\<in>set ops. accepted x"
    and "length (tickBuffer w) + length ops + 1 = BATCH_SIZE"
    and "cache_and_publish_ok io tick"
  shows "insertCalls (run maxArgs (ops @ [ProcessTick tick io]) w)
           = insertCalls w @ [tickBuffer w @ ticks_of ops @ [tick]]"
    and "tickBuffer (run maxArgs (ops @ [ProcessTick tick io]) w)
           = (if insert_ok io \<or> maxArgs < BATCH_SIZE then []
              else tickBuffer w @ ticks_of ops @ [tick])"
    and "ticks_table (run maxArgs (ops @ [ProcessTick tick io]) w)
           = (if insert_ok io then ticks_table w @ [tickBuffer w @ ticks_of ops @ [tick]]
              else ticks_table w)"
proof -
  from assms(2) have "length (tickBuffer w) + length ops < BATCH_SIZE"
    by simp
  note filled = run_fill [OF assms(1) this]
  from filled assms(1,2) have full: "BATCH_SIZE \<le> length (tickBuffer (run maxArgs ops w)) + 1"
    by (simp add: accepted_ticks_of)
  show "insertCalls (run maxArgs (ops @ [ProcessTick tick io]) w)
           = insertCalls w @ [tickBuffer w @ ticks_of ops @ [tick]]"
    using filled full by (simp add: run_append processTick_accepted_fields [OF assms(3)])
  show "tickBuffer (run maxArgs (ops @ [ProcessTick tick io]) w)
           = (if insert_ok io \<or> maxArgs < BATCH_SIZE then []
              else tickBuffer w @ ticks_of ops @ [tick])"
    using filled full assms(2) accepted_ticks_of [OF assms(1)]
    by (auto simp add: run_append processTick_accepted_fields [OF assms(3)])
  show "ticks_table (run maxArgs (ops @ [ProcessTick tick io]) w)
           = (if insert_ok io then ticks_table w @ [tickBuffer w @ ticks_of ops @ [tick]]
              else ticks_table w)"
    using filled full by (simp add: run_append processTick_accepted_fields [OF assms(3)])
qed

lemma run_batch:
  assumes acc: "\<forall>x\<in>set ops. accepted x"
    and ok: "\<forall>x\<in>set ops. succeeds x"
    and len: "length (tickBuffer w) + length ops = BATCH_SIZE"
    and ne: "ops \<noteq> []"
  shows "tickBuffer (run maxArgs ops w) = [] \<and>
         insertCalls (run maxArgs ops w) = insertCalls w @ [tickBuffer w @ ticks_of ops]"
proof -
  from ne obtain ys y where ops: "ops = ys @ [y]"
    by (cases ops rule: rev_cases) simp_all
  from acc ok ops obtain tick io where y: "y = ProcessTick tick io"
    and c: "cache_and_publish_ok io tick" and i: "insert_ok io"
    by (auto elim: succeeds_ProcessTick_cases)
  from acc ops have ys: "\<forall>x\<in>set ys. accepted x"
    by simp
  from len ops have l: "length (tickBuffer w) + length ys + 1 = BATCH_SIZE"
    by simp
  show ?thesis
    using run_reach_threshold(1,2) [OF ys l c] i
    by (simp add: ops y ticks_of_append)
qed

lemma run_redis_last:
  assumes "cache_and_publish_ok io tick"
  shows "redis_keys (run maxArgs (ops @ [ProcessTick tick io]) w) (symbol tick) = Some (NumberString (price tick))"
proof -
  from assms obtain ms where d: "timestamp tick = Date ms"
    by (cases "timestamp tick") (simp_all add: cache_and_publish_ok_def)
  show ?thesis
    by (simp add: run_append processTick_accepted_fields(7) [OF assms d])
qed

text \<open>
  With BATCH_SIZE 100, 250 processTick calls that all succeed make two insert calls of
  100 ticks each and leave the last 50 ticks in the buffer.
\<close>

lemma run_250:
  assumes ok: "\<forall>x\<in>set ops. succeeds x" and acc: "\<forall>x\<in>set ops. accepted x"
    and len: "length ops = 250"
    and start: "tickBuffer w = []"
  shows "insertCalls (run maxArgs ops w)
           = insertCalls w @ [ticks_of (take 100 ops), ticks_of (take 100 (drop 100 ops))]"
    and "tickBuffer (run maxArgs ops w) = ticks_of (drop 200 ops)"
proof -
  let ?a = "take 100 ops" and ?b = "take 100 (drop 100 ops)" and ?c = "drop 200 ops"
  have "?c = drop 100 (drop 100 ops)"
    by simp
  then have split: "ops = ?a @ ?b @ ?c"
    by (simp only: append_take_drop_id)
  have la: "length (tickBuffer w) + length ?a = BATCH_SIZE" and na: "?a \<noteq> []"
    using len start by (auto simp add: BATCH_SIZE_def)
  have a: "tickBuffer (run maxArgs ?a w) = [] \<and> insertCalls (run maxArgs ?a w) = insertCalls w @ [tickBuffer w @ ticks_of ?a]"
    by (rule run_batch [OF accepted_take [OF acc] succeeds_take [OF ok] la na])
  have lb: "length (tickBuffer (run maxArgs ?a w)) + length ?b = BATCH_SIZE" and nb: "?b \<noteq> []"
    using len a by (auto simp add: BATCH_SIZE_def)
  have b: "tickBuffer (run maxArgs ?b (run maxArgs ?a w)) = [] \<and>
           insertCalls (run maxArgs ?b (run maxArgs ?a w)) = insertCalls (run maxArgs ?a w) @ [tickBuffer (run maxArgs ?a w) @ ticks_of ?b]"
    by (rule run_batch [OF accepted_take [OF accepted_drop [OF acc]]
          succeeds_take [OF succeeds_drop [OF ok]] lb nb])
  have lc: "length (tickBuffer (run maxArgs ?b (run maxArgs ?a w))) + length ?c < BATCH_SIZE"
    using len b by (simp add: BATCH_SIZE_def)
  have c: "tickBuffer (run maxArgs ?c (run maxArgs ?b (run maxArgs ?a w))) = tickBuffer (run maxArgs ?b (run maxArgs ?a w)) @ ticks_of ?c \<and>
           insertCalls (run maxArgs ?c (run maxArgs ?b (run maxArgs ?a w))) = insertCalls (run maxArgs ?b (run maxArgs ?a w)) \<and>
           ticks_table (run maxArgs ?c (run maxArgs ?b (run maxArgs ?a w))) = ticks_table (run maxArgs ?b (run maxArgs ?a w))"
    by (rule run_fill [OF accepted_drop [OF acc] lc])
  have "run maxArgs ops w = run maxArgs (?a @ ?b @ ?c) w"
    using split by simp
  then have r: "run maxArgs ops w = run maxArgs ?c (run maxArgs ?b (run maxArgs ?a w))"
    by (simp only: run_append)
  show "insertCalls (run maxArgs ops w)
           = insertCalls w @ [ticks_of (take 100 ops), ticks_of (take 100 (drop 100 ops))]"
    using a b c start by (simp add: r)
  show "tickBuffer (run maxArgs ops w) = ticks_of (drop 200 ops)"
    using a b c by (simp add: r)
qed

lemma aapl_ticks_facts:
  "length (aapl_ticks n) = n"
  "\<forall>x\<in>set (aapl_ticks n). succeeds x"
  "\<forall>x\<in>set (aapl_ticks n). accepted x"
  "ticks_of (aapl_ticks n) = map (\<lambda>i. aapl (int i) (int i)) [0..<n]"
proof -
  show "length (aapl_ticks n) = n"
    by (simp add: aapl_ticks_def)
  show "\<forall>x\<in>set (aapl_ticks n). succeeds x"
    by (simp add: aapl_ticks_def all_ok_def cache_and_publish_ok_def aapl_def)
  show "\<forall>x\<in>set (aapl_ticks n). accepted x"
    by (simp add: aapl_ticks_def all_ok_def cache_and_publish_ok_def aapl_def)
  have "ticks_of (map (\<lambda>i. ProcessTick (aapl (int i) (int i)) all_ok) xs)
      = map (\<lambda>i. aapl (int i) (int i)) xs" for xs :: "nat list"
    by (induction xs) simp_all
  then show "ticks_of (aapl_ticks n) = map (\<lambda>i. aapl (int i) (int i)) [0..<n]"
    by (simp add: aapl_ticks_def)
qed

text \<open>
  Ninety-nine ticks fill the buffer short of the threshold; the hundredth triggers a
  flush whose insert fails, so all hundred are back in the buffer; the next tick
  triggers a flush that hands all 101 to the writer.
\<close>

lemma oversized_batch:
  assumes acc: "\<forall>x\<in>set ops. accepted x"
    and len: "length (tickBuffer w) + length ops + 1 = BATCH_SIZE"
    and t1: "cache_and_publish_ok io1 t1" and fails: "\<not> insert_ok io1"
    and t2: "cache_and_publish_ok io2 t2"
    and fits: "BATCH_SIZE \<le> maxArgs"
  shows "tickBuffer (run maxArgs (ops @ [ProcessTick t1 io1]) w) = tickBuffer w @ ticks_of ops @ [t1]"
    and "insertCalls (run maxArgs (ops @ [ProcessTick t1 io1]) w) = insertCalls w @ [tickBuffer w @ ticks_of ops @ [t1]]"
    and "insertCalls (run maxArgs (ops @ [ProcessTick t1 io1, ProcessTick t2 io2]) w)
           = insertCalls w @ [tickBuffer w @ ticks_of ops @ [t1], tickBuffer w @ ticks_of ops @ [t1, t2]]"
    and "length (tickBuffer w @ ticks_of ops @ [t1, t2]) = BATCH_SIZE + 1"
proof -
  note first = run_reach_threshold [OF acc len t1]
  show b: "tickBuffer (run maxArgs (ops @ [ProcessTick t1 io1]) w) = tickBuffer w @ ticks_of ops @ [t1]"
    using first(2) fails fits by simp
  show c: "insertCalls (run maxArgs (ops @ [ProcessTick t1 io1]) w) = insertCalls w @ [tickBuffer w @ ticks_of ops @ [t1]]"
    using first(1) .
  show l: "length (tickBuffer w @ ticks_of ops @ [t1, t2]) = BATCH_SIZE + 1"
    using len by (simp add: accepted_ticks_of [OF acc])
  have "run maxArgs (ops @ [ProcessTick t1 io1, ProcessTick t2 io2]) w
      = snd (processTick maxArgs io2 t2 (run maxArgs (ops @ [ProcessTick t1 io1]) w))"
    using run_append [of maxArgs "ops @ [ProcessTick t1 io1]" "[ProcessTick t2 io2]" w] by simp
  then show "insertCalls (run maxArgs (ops @ [ProcessTick t1 io1, ProcessTick t2 io2]) w)
           = insertCalls w @ [tickBuffer w @ ticks_of ops @ [t1], tickBuffer w @ ticks_of ops @ [t1, t2]]"
    using l by (simp add: processTick_accepted_fields [OF t2] b c)
qed

section \<open>Facts about interleaved executions\<close>

text \<open>What one event does to the list of insert calls: nothing, or one more non-empty batch.\<close>

lemma resume_insertCalls:
  "insertCalls (resume ok k f w) = insertCalls w \<or>
   (\<exists>b. b \<noteq> [] \<and> insertCalls (resume ok k f w) = insertCalls w @ [b])"
  by (cases f)
     (simp_all add: Let_def redis_set_def redis_publish_def flushBatch_start_fields split: Date.split)

lemma step_insertCalls:
  "insertCalls (step maxArgs e w) = insertCalls w \<or>
   (\<exists>b. b \<noteq> [] \<and> insertCalls (step maxArgs e w) = insertCalls w @ [b])"
proof (cases e)
  case (Settle k ok)
  then show ?thesis using resume_insertCalls [of ok k "suspended w ! k" w] by simp
qed (simp_all add: flushBatch_start_fields flushBatch_settle_fields)

lemma execute_nonempty_batches:
  "\<forall>b\<in>set (insertCalls w). b \<noteq> [] \<Longrightarrow> \<forall>b\<in>set (insertCalls (execute maxArgs es w)). b \<noteq> []"
proof (induction es arbitrary: w)
  case Nil
  then show ?case by simp
next
  case (Cons e es)
  from step_insertCalls [where e = e and w = w and maxArgs = maxArgs] Cons.prems have "\<forall>b\<in>set (insertCalls (step maxArgs e w)). b \<noteq> []"
    by auto
  then show ?case using Cons.IH by simp
qed

lemma mset_remove_nth: "k < length xs \<Longrightarrow> add_mset (xs ! k) (mset (remove_nth k xs)) = mset xs"
proof -
  assume "k < length xs"
  then have "xs = take k xs @ xs ! k # drop (Suc k) xs"
    by (rule id_take_nth_drop)
  then have "mset xs = mset (take k xs @ xs ! k # drop (Suc k) xs)"
    by simp
  then show ?thesis
    by (simp add: remove_nth_def)
qed

lemma batch_path_inv_flushBatch_start: "batch_path_inv w \<Longrightarrow> batch_path_inv (flushBatch_start w)"
  by (auto simp add: batch_path_inv_def flushBatch_start_fields flush_published BATCH_SIZE_pos)

lemma batch_path_inv_resume:
  assumes "batch_path_inv w"
  shows "batch_path_inv (resume ok k f w)"
proof (cases f)
  case (AwaitSetPrice tick)
  with assms show ?thesis
    by (simp add: batch_path_inv_def Let_def redis_set_def split: Date.split)
next
  case (AwaitSetTimestamp tick ms)
  with assms show ?thesis
    by (simp add: batch_path_inv_def Let_def redis_set_def)
next
  case (AwaitPublish tick)
  show ?thesis
  proof (cases ok)
    case False
    with assms AwaitPublish show ?thesis
      by (simp add: batch_path_inv_def)
  next
    case True
    let ?w4 = "(redis_publish ''market:ticks'' tick (w\<lparr>suspended := remove_nth k (suspended w)\<rparr>))
        \<lparr>tickBuffer := tickBuffer w @ [tick]\<rparr>"
    have pushed: "concat (insertCalls ?w4) @ tickBuffer ?w4 = map snd (redis_published ?w4)"
      "\<forall>b\<in>set (insertCalls ?w4). length b \<le> BATCH_SIZE"
      "mset (ticks_table ?w4) + mset (inflight ?w4) = mset (insertCalls ?w4)"
      "length (tickBuffer ?w4) = length (tickBuffer w) + 1"
      "tickBuffer ?w4 \<noteq> []"
      using assms by (simp_all add: batch_path_inv_def redis_publish_def)
    show ?thesis
    proof (cases "BATCH_SIZE \<le> length (tickBuffer w) + 1")
      case False
      with pushed have "batch_path_inv ?w4"
        by (simp add: batch_path_inv_def)
      with False True AwaitPublish show ?thesis
        by (simp add: Let_def redis_publish_def)
    next
      case full: True
      from assms have "length (tickBuffer w) < BATCH_SIZE"
        by (simp add: batch_path_inv_def)
      with pushed have "batch_path_inv (flushBatch_start ?w4)"
        by (simp add: batch_path_inv_def flushBatch_start_fields flush_published BATCH_SIZE_pos)
      with full True AwaitPublish show ?thesis
        by (simp add: Let_def redis_publish_def)
    qed
  qed
qed

lemma batch_path_inv_step:
  assumes "batch_path_inv w" and "\<not> insert_fails e"
  shows "batch_path_inv (step maxArgs e w)"
proof (cases e)
  case (Call tick)
  with assms show ?thesis by (simp add: batch_path_inv_def)
next
  case (Settle k ok)
  with assms show ?thesis by (simp add: batch_path_inv_resume)
next
  case TimerFires
  with assms show ?thesis by (simp add: batch_path_inv_flushBatch_start)
next
  case (InsertSettles k ok)
  with assms have ok by simp
  show ?thesis
  proof (cases "k < length (inflight w)")
    case True
    from mset_remove_nth [OF True] assms(1)
    have "mset (ticks_table w) + add_mset (inflight w ! k) (mset (remove_nth k (inflight w)))
        = mset (insertCalls w)"
      by (simp add: batch_path_inv_def)
    with assms(1) True \<open>ok\<close> InsertSettles show ?thesis
      by (simp add: batch_path_inv_def flushBatch_settle_fields flush_published)
  next
    case False
    with assms InsertSettles show ?thesis by simp
  qed
qed

lemma batch_path_inv_execute:
  "batch_path_inv w \<Longrightarrow> \<forall>e\<in>set es. \<not> insert_fails e \<Longrightarrow> batch_path_inv (execute maxArgs es w)"
  by (induction es arbitrary: w) (simp_all add: batch_path_inv_step)

lemma batch_path_inv_init: "batch_path_inv (MarketDataIngestor kv)"
  by (simp add: batch_path_inv_def MarketDataIngestor_def startBatchProcessor_def BATCH_SIZE_pos)

section \<open>Evaluation\<close>

text \<open>The definitions unfolded to evaluate a concrete execution.\<close>

lemmas eval_defs =
  processTick_def flushBatch_def flushBatch_take_def flushBatch_settle_def flushBatch_start_def
  shutdown_def shutdown_start_def clearInterval_def MarketDataIngestor_def startBatchProcessor_def redis_set_def redis_publish_def
  row_of_def all_ok_def aapl_def BATCH_SIZE_def cache_and_publish_ok_def ingest_def
  remove_nth_def Let_def

section \<open>The claims\<close>

text \<open>
  C1: take any sequence of processTick calls and timer flushes, run one after the other
  from a new ingestor, in which every tick is ingested and every durable write succeeds,
  and let shutdown make the final flush. Then the insert calls, concatenated in call
  order, are exactly the ticks ingested in arrival order; every call succeeded, so the
  table holds the same batches; the buffer is empty; and every batch has between 1 and
  BATCH_SIZE ticks. If the sequence is 250 processTick calls, there are exactly three
  insert calls, of 100, 100 and 50 ticks, the last made by the final flush of shutdown
  (or by a timer flush in its place), and the cache holds the price of the 250th tick
  under its symbol. In an interleaved execution in which no durable write fails
  (whatever the Redis calls do), the insert calls followed by the buffer are the ticks
  ingested, in the order in which they were pushed; every batch has between 1 and
  BATCH_SIZE ticks; and every batch handed to the writer is in the table or in flight.
\<close>

theorem store_receives_all_ticks_in_bounded_batches:
  assumes "\<forall>x\<in>set ops. succeeds x" and "\<forall>e\<in>set es. \<not> insert_fails e"
  shows "let w = snd (shutdown maxArgs True quit_ok close_ok (run maxArgs ops (MarketDataIngestor kv)));
             v = execute maxArgs es (MarketDataIngestor kv) in
         concat (insertCalls w) = ticks_of ops \<and>
         ticks_table w = insertCalls w \<and>
         tickBuffer w = [] \<and>
         (\<forall>b\<in>set (insertCalls w). b \<noteq> [] \<and> length b \<le> BATCH_SIZE) \<and>
         ((\<forall>x\<in>set ops. accepted x) \<and> length ops = 250 \<longrightarrow>
            map length (insertCalls w) = [100, 100, 50] \<and>
            map length (insertCalls (run maxArgs (ops @ [TimerFlush True]) (MarketDataIngestor kv)))
              = [100, 100, 50] \<and>
            redis_keys w (symbol (last (ticks_of ops)))
              = Some (NumberString (price (last (ticks_of ops))))) \<and>
         concat (insertCalls v) @ tickBuffer v = map snd (redis_published v) \<and>
         (\<forall>b\<in>set (insertCalls v). b \<noteq> [] \<and> length b \<le> BATCH_SIZE) \<and>
         mset (ticks_table v) + mset (inflight v) = mset (insertCalls v)"
proof -
  define w0 :: "'a system" where "w0 = MarketDataIngestor kv"
  define r where "r = run maxArgs ops w0"
  define w where "w = snd (shutdown maxArgs True quit_ok close_ok r)"
  have init: "tickBuffer w0 = []" "insertCalls w0 = []" "ticks_table w0 = []" "batchInterval w0"
    by (simp_all add: w0_def MarketDataIngestor_def startBatchProcessor_def)
  have inv: "concat (insertCalls r) @ tickBuffer r = ticks_of ops"
    and below: "length (tickBuffer r) < BATCH_SIZE"
    and table: "ticks_table r = insertCalls r"
    and bound: "\<forall>b\<in>set (insertCalls r). length b \<le> BATCH_SIZE"
    using run_succeeds [OF assms(1), where w = w0 and maxArgs = maxArgs] init by (simp_all add: r_def BATCH_SIZE_pos)
  have nonempty: "\<forall>b\<in>set (insertCalls r). b \<noteq> []"
    unfolding r_def by (rule run_nonempty_batches) (simp add: init)
  have calls: "insertCalls w = (if tickBuffer r = [] then insertCalls r else insertCalls r @ [tickBuffer r])"
    and buffer: "tickBuffer w = []"
    and stored: "ticks_table w = (if tickBuffer r = [] then ticks_table r else ticks_table r @ [tickBuffer r])"
    and keys: "redis_keys w = redis_keys r"
    by (simp_all add: w_def shutdown_fields flushBatch_fields)
  have general: "concat (insertCalls w) = ticks_of ops \<and> ticks_table w = insertCalls w \<and>
      tickBuffer w = [] \<and> (\<forall>b\<in>set (insertCalls w). b \<noteq> [] \<and> length b \<le> BATCH_SIZE)"
    using inv below table bound nonempty by (auto simp add: calls buffer stored)
  have example: "map length (insertCalls w) = [100, 100, 50] \<and>
      map length (insertCalls (run maxArgs (ops @ [TimerFlush True]) w0)) = [100, 100, 50] \<and>
      redis_keys w (symbol (last (ticks_of ops))) = Some (NumberString (price (last (ticks_of ops))))"
    if acc: "\<forall>x\<in>set ops. accepted x" and len: "length ops = 250"
  proof -
    note two = run_250 [OF assms(1) acc len init(1), where maxArgs = maxArgs]
    have la: "length (ticks_of (take 100 ops)) = 100"
      and lb: "length (ticks_of (take 100 (drop 100 ops))) = 100"
      and lc: "length (ticks_of (drop 200 ops)) = 50"
      using len
      by (simp_all add: accepted_ticks_of [OF accepted_take [OF acc]]
          accepted_ticks_of [OF accepted_take [OF accepted_drop [OF acc]]]
          accepted_ticks_of [OF accepted_drop [OF acc]])
    from lc have rest: "tickBuffer r \<noteq> []"
      using two(2) by (auto simp add: r_def)
    have sizes: "map length (insertCalls w) = [100, 100, 50]"
      using two la lb lc rest by (simp add: calls r_def init)
    have armed: "batchInterval r"
      by (simp add: r_def run_batchInterval init)
    have timer: "map length (insertCalls (run maxArgs (ops @ [TimerFlush True]) w0)) = [100, 100, 50]"
      using two la lb lc rest armed
      by (simp add: run_append flushBatch_fields r_def [symmetric] init)
    from len obtain ys y where ops: "ops = ys @ [y]"
      by (cases ops rule: rev_cases) simp_all
    with acc obtain tick io where y: "y = ProcessTick tick io" and c: "cache_and_publish_ok io tick"
      by (cases y) simp_all
    have "last (ticks_of ops) = tick"
      by (simp add: ops y ticks_of_append)
    then have cache: "redis_keys w (symbol (last (ticks_of ops)))
        = Some (NumberString (price (last (ticks_of ops))))"
      using run_redis_last [OF c, where ops = ys and w = w0 and maxArgs = maxArgs] by (simp add: keys r_def ops y)
    from sizes timer cache show ?thesis
      by blast
  qed
  have "batch_path_inv (execute maxArgs es w0)"
    unfolding w0_def by (rule batch_path_inv_execute [OF batch_path_inv_init assms(2)])
  moreover have "\<forall>b\<in>set (insertCalls (execute maxArgs es w0)). b \<noteq> []"
    by (rule execute_nonempty_batches) (simp add: init)
  ultimately have interleaved:
    "concat (insertCalls (execute maxArgs es w0)) @ tickBuffer (execute maxArgs es w0)
       = map snd (redis_published (execute maxArgs es w0)) \<and>
     (\<forall>b\<in>set (insertCalls (execute maxArgs es w0)). b \<noteq> [] \<and> length b \<le> BATCH_SIZE) \<and>
     mset (ticks_table (execute maxArgs es w0)) + mset (inflight (execute maxArgs es w0))
       = mset (insertCalls (execute maxArgs es w0))"
    by (simp add: batch_path_inv_def)
  from general example interleaved show ?thesis
    unfolding Let_def w_def r_def w0_def by blast
qed

theorem store_receives_all_ticks_in_bounded_batches_witness:
  "length (aapl_ticks 250) = 250 \<and>
   concat (insertCalls (snd (shutdown 125000 True True True (run 125000 (aapl_ticks 250) (MarketDataIngestor Map.empty)))))
     = map (\<lambda>i. aapl (int i) (int i)) [0..<250] \<and>
   map length (insertCalls (snd (shutdown 125000 True True True
     (run 125000 (aapl_ticks 250) (MarketDataIngestor Map.empty))))) = [100, 100, 50] \<and>
   ticks_table (snd (shutdown 125000 True True True (run 125000 (aapl_ticks 250) (MarketDataIngestor Map.empty))))
     = insertCalls (snd (shutdown 125000 True True True (run 125000 (aapl_ticks 250) (MarketDataIngestor Map.empty)))) \<and>
   redis_keys (snd (shutdown 125000 True True True (run 125000 (aapl_ticks 250) (MarketDataIngestor Map.empty))))
     ''AAPL'' = Some (NumberString 249) \<and>
   ticks_table (execute 125000 (ingest (aapl 0 0) @ [TimerFires, InsertSettles 0 True])
     (MarketDataIngestor Map.empty)) = [[aapl 0 0]] \<and>
   mset (ticks_table (execute 125000 (ingest (aapl 0 0) @ [TimerFires, InsertSettles 0 True])
     (MarketDataIngestor Map.empty))) +
   mset (inflight (execute 125000 (ingest (aapl 0 0) @ [TimerFires, InsertSettles 0 True])
     (MarketDataIngestor Map.empty)))
     = mset (insertCalls (execute 125000 (ingest (aapl 0 0) @ [TimerFires, InsertSettles 0 True])
     (MarketDataIngestor Map.empty)))"
proof -
  have no_failure: "\<forall>e\<in>set (ingest (aapl 0 0) @ [TimerFires, InsertSettles 0 True]). \<not> insert_fails e"
    by (simp add: ingest_def)
  note all = store_receives_all_ticks_in_bounded_batches [OF aapl_ticks_facts(2) [of 250] no_failure,
      where quit_ok = True and close_ok = True and kv = Map.empty and maxArgs = 125000,
      unfolded Let_def]
  have last: "last (ticks_of (aapl_ticks 250)) = aapl 249 249"
    by (simp add: aapl_ticks_facts(4) last_map)
  from all aapl_ticks_facts(1,3) [of 250]
  have sizes: "map length (insertCalls (snd (shutdown 125000 True True True
      (run 125000 (aapl_ticks 250) (MarketDataIngestor Map.empty))))) = [100, 100, 50]"
    and "redis_keys (snd (shutdown 125000 True True True (run 125000 (aapl_ticks 250) (MarketDataIngestor Map.empty))))
      (symbol (last (ticks_of (aapl_ticks 250))))
      = Some (NumberString (price (last (ticks_of (aapl_ticks 250)))))"
    by blast+
  then have "redis_keys (snd (shutdown 125000 True True True (run 125000 (aapl_ticks 250) (MarketDataIngestor Map.empty))))
      ''AAPL'' = Some (NumberString 249)"
    by (simp add: last aapl_def)
  moreover note sizes
  moreover from all
  have "concat (insertCalls (snd (shutdown 125000 True True True (run 125000 (aapl_ticks 250) (MarketDataIngestor Map.empty)))))
      = ticks_of (aapl_ticks 250)"
    and "ticks_table (snd (shutdown 125000 True True True (run 125000 (aapl_ticks 250) (MarketDataIngestor Map.empty))))
     = insertCalls (snd (shutdown 125000 True True True (run 125000 (aapl_ticks 250) (MarketDataIngestor Map.empty))))"
    by blast+
  moreover from all
  have "mset (ticks_table (execute 125000 (ingest (aapl 0 0) @ [TimerFires, InsertSettles 0 True])
     (MarketDataIngestor Map.empty))) +
   mset (inflight (execute 125000 (ingest (aapl 0 0) @ [TimerFires, InsertSettles 0 True])
     (MarketDataIngestor Map.empty)))
     = mset (insertCalls (execute 125000 (ingest (aapl 0 0) @ [TimerFires, InsertSettles 0 True])
     (MarketDataIngestor Map.empty)))"
    by blast
  moreover have "ticks_table (execute 125000 (ingest (aapl 0 0) @ [TimerFires, InsertSettles 0 True])
     (MarketDataIngestor Map.empty)) = [[aapl 0 0]]"
    by (simp add: eval_defs)
  ultimately show ?thesis
    by (simp only: aapl_ticks_facts(1,4) simp_thms)
qed

text \<open>
  C2 as stated fails: the buffer after a failed flush need not be the failed batch
  followed by newer ticks. Two timer flushes overlap, the first with the batch [t1]
  and the second with [t2], and both inserts fail in that order. The failed batch
  [t2] is put back in front of the older tick t1, which the first failure had put
  back before.
\<close>

theorem failed_batch_ahead_of_older_tick:
  "inflight (execute 125000 (ingest (aapl 10 1000) @ [TimerFires] @ ingest (aapl 11 2000) @
      [TimerFires, InsertSettles 0 False]) (MarketDataIngestor Map.empty)) = [[aapl 11 2000]] \<and>
   tickBuffer (execute 125000 (ingest (aapl 10 1000) @ [TimerFires] @ ingest (aapl 11 2000) @
      [TimerFires, InsertSettles 0 False]) (MarketDataIngestor Map.empty)) = [aapl 10 1000] \<and>
   tickBuffer (execute 125000 (ingest (aapl 10 1000) @ [TimerFires] @ ingest (aapl 11 2000) @
      [TimerFires, InsertSettles 0 False, InsertSettles 0 False]) (MarketDataIngestor Map.empty))
     = [aapl 11 2000, aapl 10 1000]"
  by (simp add: eval_defs)

text \<open>
  C2, amended: a flush takes the whole buffer as its batch and leaves the buffer empty.
  When the insert fails and the batch has no more ticks than the engine accepts as
  arguments of one call, the batch is not dropped: the flush raises no error, the batch
  is put back at the front of the buffer, in its original order, ahead of everything
  the buffer holds at that moment (so ahead of every tick appended after the batch was
  taken), and nothing is added to the table. This holds for the settling of any
  pending insert in an interleaved execution. When only processTick calls, fewer than
  BATCH_SIZE of them, ran while the insert was pending, the buffer afterwards is the
  failed batch followed by the newer ticks; a failed flush awaited with nothing in
  between leaves the buffer as it was.
\<close>

theorem failed_flush_requeues_batch_at_front:
  assumes "flushBatch_take w = (Some batch, w1)"
    and "length batch \<le> maxArgs"
    and "\<forall>x\<in>set newer. accepted x"
    and "length newer < BATCH_SIZE"
  shows "batch = tickBuffer w \<and> batch \<noteq> [] \<and> tickBuffer w1 = [] \<and>
         fst (flushBatch_settle maxArgs False batch (run maxArgs newer w1)) = None \<and>
         tickBuffer (snd (flushBatch_settle maxArgs False batch (run maxArgs newer w1)))
           = batch @ ticks_of newer \<and>
         ticks_table (snd (flushBatch_settle maxArgs False batch (run maxArgs newer w1)))
           = ticks_table w \<and>
         fst (flushBatch maxArgs False w) = None \<and>
         tickBuffer (snd (flushBatch maxArgs False w)) = tickBuffer w \<and>
         ticks_table (snd (flushBatch maxArgs False w)) = ticks_table w \<and>
         (\<forall>s k. k < length (inflight s) \<and> length (inflight s ! k) \<le> maxArgs \<longrightarrow>
            tickBuffer (step maxArgs (InsertSettles k False) s) = inflight s ! k @ tickBuffer s \<and>
            ticks_table (step maxArgs (InsertSettles k False) s) = ticks_table s)"
proof -
  from assms(1) have nonempty: "tickBuffer w \<noteq> []"
    by (auto simp add: flushBatch_take_def split: if_splits)
  with assms(1) have batch: "batch = tickBuffer w" and w1: "tickBuffer w1 = []"
    and table: "ticks_table w1 = ticks_table w"
    by (auto simp add: flushBatch_take_def Let_def)
  from w1 assms(4) have "length (tickBuffer w1) + length newer < BATCH_SIZE"
    by simp
  from run_fill [OF assms(3) this, where maxArgs = maxArgs] w1 table
  have "tickBuffer (run maxArgs newer w1) = ticks_of newer"
    and "ticks_table (run maxArgs newer w1) = ticks_table w"
    by simp_all
  moreover from assms(2) have "\<not> maxArgs < length batch"
    by simp
  ultimately show ?thesis
    using nonempty batch w1
    by (simp add: flushBatch_settle_fields flushBatch_fields flushBatch_error)
qed

theorem failed_flush_requeues_batch_at_front_witness:
  "flushBatch_take (run 125000 [ProcessTick (aapl 10 1000) all_ok, ProcessTick (aapl 11 1100) all_ok]
      (MarketDataIngestor Map.empty))
     = (Some [aapl 10 1000, aapl 11 1100],
        snd (flushBatch_take (run 125000 [ProcessTick (aapl 10 1000) all_ok, ProcessTick (aapl 11 1100) all_ok]
          (MarketDataIngestor Map.empty)))) \<and>
   length [aapl 10 1000, aapl 11 1100] \<le> (125000 :: nat) \<and>
   accepted (ProcessTick (aapl 12 1200) all_ok) \<and>
   tickBuffer (snd (flushBatch_settle 125000 False [aapl 10 1000, aapl 11 1100]
     (run 125000 [ProcessTick (aapl 12 1200) all_ok]
        (snd (flushBatch_take (run 125000 [ProcessTick (aapl 10 1000) all_ok, ProcessTick (aapl 11 1100) all_ok]
          (MarketDataIngestor Map.empty)))))))
     = [aapl 10 1000, aapl 11 1100, aapl 12 1200]"
proof -
  have taken: "flushBatch_take (run 125000 [ProcessTick (aapl 10 1000) all_ok, ProcessTick (aapl 11 1100) all_ok]
      (MarketDataIngestor Map.empty))
     = (Some [aapl 10 1000, aapl 11 1100],
        snd (flushBatch_take (run 125000 [ProcessTick (aapl 10 1000) all_ok, ProcessTick (aapl 11 1100) all_ok]
          (MarketDataIngestor Map.empty))))"
    by (simp add: eval_defs)
  have fits: "length [aapl 10 1000, aapl 11 1100] \<le> (125000 :: nat)"
    by simp
  have ok: "\<forall>x\<in>set [ProcessTick (aapl 12 1200) all_ok]. accepted x"
    by (simp add: eval_defs)
  have few: "length [ProcessTick (aapl 12 1200) all_ok] < BATCH_SIZE"
    by (simp add: BATCH_SIZE_def)
  note requeued = failed_flush_requeues_batch_at_front [OF taken fits ok few,
      THEN conjunct2, THEN conjunct2, THEN conjunct2, THEN conjunct2, THEN conjunct1]
  from ok have "accepted (ProcessTick (aapl 12 1200) all_ok)"
    by simp
  moreover from requeued
  have "tickBuffer (snd (flushBatch_settle 125000 False [aapl 10 1000, aapl 11 1100]
     (run 125000 [ProcessTick (aapl 12 1200) all_ok]
        (snd (flushBatch_take (run 125000 [ProcessTick (aapl 10 1000) all_ok, ProcessTick (aapl 11 1100) all_ok]
          (MarketDataIngestor Map.empty)))))))
     = [aapl 10 1000, aapl 11 1100, aapl 12 1200]"
    by simp
  ultimately show ?thesis
    using taken fits by blast
qed

text \<open>
  C3 as stated fails: a tick is ingested and the timer fires, starting a write; a second
  tick is ingested and the timer fires again before the first write has settled. The
  second flush is not suppressed: two writes are in flight.
\<close>

theorem two_writes_in_flight:
  "inflight (execute 125000 (ingest (aapl 10 1000) @ [TimerFires] @ ingest (aapl 11 2000) @ [TimerFires])
     (MarketDataIngestor Map.empty)) = [[aapl 10 1000], [aapl 11 2000]]"
  by (simp add: eval_defs)

text \<open>
  C3, amended: in the pipeline (processTick, the periodic timer flush and the
  asynchronous durable write as interleaved steps) a flush step is never suppressed.
  Whenever the buffer is not empty, a timer flush (while the timer is armed) and a
  threshold flush hand the whole buffer to a new durable write, whatever writes are
  still in flight, so several durable writes can be in flight at once. A flush step
  starts no write only when the buffer is empty, and every step starts at most one.
\<close>

theorem flush_step_is_never_suppressed:
  "(batchInterval w \<and> tickBuffer w \<noteq> [] \<longrightarrow>
      inflight (step maxArgs TimerFires w) = inflight w @ [tickBuffer w] \<and>
      insertCalls (step maxArgs TimerFires w) = insertCalls w @ [tickBuffer w] \<and>
      tickBuffer (step maxArgs TimerFires w) = []) \<and>
   (k < length (suspended w) \<and> suspended w ! k = AwaitPublish tick \<and>
    BATCH_SIZE \<le> length (tickBuffer w) + 1 \<longrightarrow>
      inflight (step maxArgs (Settle k True) w) = inflight w @ [tickBuffer w @ [tick]]) \<and>
   (tickBuffer w = [] \<longrightarrow> inflight (step maxArgs TimerFires w) = inflight w) \<and>
   length (inflight (step maxArgs e w)) \<le> length (inflight w) + 1"
proof -
  have "length (inflight (resume ok j f w)) \<le> length (inflight w) + 1" for ok j f
    by (cases f)
       (simp_all add: Let_def redis_set_def redis_publish_def flushBatch_start_fields split: Date.split)
  then have "length (inflight (step maxArgs e w)) \<le> length (inflight w) + 1"
    by (cases e) (auto simp add: flushBatch_start_fields flushBatch_settle_fields remove_nth_def)
  then show ?thesis
    by (simp add: flushBatch_start_fields redis_publish_def)
qed

theorem flush_step_is_never_suppressed_witness:
  "inflight (step 125000 TimerFires
     ((MarketDataIngestor Map.empty)\<lparr>tickBuffer := [aapl 11 2000], inflight := [[aapl 10 1000]]\<rparr>))
     = [[aapl 10 1000], [aapl 11 2000]] \<and>
   length (inflight (step 125000 (Settle 0 True)
     ((MarketDataIngestor Map.empty)\<lparr>tickBuffer := replicate 99 (aapl 11 2000),
        inflight := [[aapl 10 1000]], suspended := [AwaitPublish (aapl 12 3000)]\<rparr>))) = 2"
  using flush_step_is_never_suppressed [where maxArgs = 125000 and w =
      "(MarketDataIngestor Map.empty)\<lparr>tickBuffer := [aapl 11 2000], inflight := [[aapl 10 1000]]\<rparr>"]
    flush_step_is_never_suppressed [where maxArgs = 125000 and w =
      "(MarketDataIngestor Map.empty)\<lparr>tickBuffer := replicate 99 (aapl 11 2000),
        inflight := [[aapl 10 1000]], suspended := [AwaitPublish (aapl 12 3000)]\<rparr>"
      and k = 0 and tick = "aapl 12 3000"]
  by (simp add: MarketDataIngestor_def startBatchProcessor_def BATCH_SIZE_def)




text \<open>
  C5 as stated fails: with the publish rejected, processTick returns the Redis error and
  the buffer stays empty; the tick is not appended.
\<close>

theorem publish_failure_drops_tick:
  "fst (processTick 125000 (all_ok\<lparr>publish_ok := False\<rparr>) (aapl 10 1000) (MarketDataIngestor Map.empty))
     = Some RedisError \<and>
   tickBuffer (snd (processTick 125000 (all_ok\<lparr>publish_ok := False\<rparr>) (aapl 10 1000)
     (MarketDataIngestor Map.empty))) = [] \<and>
   insertCalls (snd (processTick 125000 (all_ok\<lparr>publish_ok := False\<rparr>) (aapl 10 1000)
     (MarketDataIngestor Map.empty))) = []"
  by (simp add: eval_defs)

text \<open>
  C5, amended: when the cache update or the publish step of processTick fails, the call
  ends with an error and the tick is not appended: buffer, insert calls and table are
  as before. Ingestion continues: a later call whose cache and publish steps succeed
  has the same result and leaves the buffer, the insert calls and the table exactly as
  it would have without the failed call. That later call returns no error when its
  insert succeeds or the buffer it would have to put back has no more ticks than the
  engine accepts as arguments of one call.
\<close>

theorem cache_or_publish_failure_skips_tick:
  assumes "\<not> cache_and_publish_ok io tick"
  shows "fst (processTick maxArgs io tick w) \<noteq> None \<and>
         tickBuffer (snd (processTick maxArgs io tick w)) = tickBuffer w \<and>
         insertCalls (snd (processTick maxArgs io tick w)) = insertCalls w \<and>
         ticks_table (snd (processTick maxArgs io tick w)) = ticks_table w \<and>
         (cache_and_publish_ok io' tick' \<longrightarrow>
            fst (processTick maxArgs io' tick' (snd (processTick maxArgs io tick w)))
              = fst (processTick maxArgs io' tick' w) \<and>
            (insert_ok io' \<or> length (tickBuffer w) < maxArgs \<longrightarrow>
               fst (processTick maxArgs io' tick' (snd (processTick maxArgs io tick w))) = None) \<and>
            tickBuffer (snd (processTick maxArgs io' tick' (snd (processTick maxArgs io tick w))))
              = tickBuffer (snd (processTick maxArgs io' tick' w)) \<and>
            insertCalls (snd (processTick maxArgs io' tick' (snd (processTick maxArgs io tick w))))
              = insertCalls (snd (processTick maxArgs io' tick' w)) \<and>
            ticks_table (snd (processTick maxArgs io' tick' (snd (processTick maxArgs io tick w))))
              = ticks_table (snd (processTick maxArgs io' tick' w)))"
  by (auto simp add: processTick_rejects [OF assms] processTick_accepted_fields)

theorem cache_or_publish_failure_skips_tick_witness:
  "\<not> cache_and_publish_ok (all_ok\<lparr>set_timestamp_ok := False\<rparr>) (aapl 10 1000) \<and>
   cache_and_publish_ok all_ok (aapl 11 2000) \<and> insert_ok all_ok \<and>
   fst (processTick 125000 (all_ok\<lparr>set_timestamp_ok := False\<rparr>) (aapl 10 1000)
     (MarketDataIngestor Map.empty)) = Some RedisError \<and>
   tickBuffer (snd (processTick 125000 all_ok (aapl 11 2000)
     (snd (processTick 125000 (all_ok\<lparr>set_timestamp_ok := False\<rparr>) (aapl 10 1000)
        (MarketDataIngestor Map.empty))))) = [aapl 11 2000]"
  using cache_or_publish_failure_skips_tick [where io = "all_ok\<lparr>set_timestamp_ok := False\<rparr>"
      and tick = "aapl 10 1000" and maxArgs = 125000 and w = "MarketDataIngestor Map.empty"
      and io' = all_ok and tick' = "aapl 11 2000"]
  by (simp add: eval_defs)

text \<open>
  C6 as stated fails: a tick with an empty symbol is not rejected. The call returns no
  error, the price is cached under the empty key and the tick is in the buffer.
\<close>

theorem empty_symbol_is_ingested:
  "fst (processTick 125000 all_ok \<lparr>symbol = [], price = 0::int, volume = 0, timestamp = Date 0\<rparr>
     (MarketDataIngestor Map.empty)) = None \<and>
   tickBuffer (snd (processTick 125000 all_ok \<lparr>symbol = [], price = 0::int, volume = 0, timestamp = Date 0\<rparr>
     (MarketDataIngestor Map.empty)))
     = [\<lparr>symbol = [], price = 0, volume = 0, timestamp = Date 0\<rparr>] \<and>
   redis_keys (snd (processTick 125000 all_ok \<lparr>symbol = [], price = 0::int, volume = 0, timestamp = Date 0\<rparr>
     (MarketDataIngestor Map.empty))) [] = Some (NumberString 0)"
  by (simp add: eval_defs)

text \<open>
  C6, amended: processTick does not validate the shape of a tick. Whatever its symbol
  (the empty string included) and whatever its price, a tick whose cache and publish
  calls succeed is not rejected for its shape: the price is cached under the symbol,
  the tick is published, and the tick is appended to the buffer (and handed to the
  durable writer at once when the buffer reaches BATCH_SIZE). The call returns no
  error when its insert succeeds or the buffer it would have to put back has no more
  ticks than the engine accepts as arguments of one call.
\<close>

theorem processTick_does_not_validate:
  assumes "cache_and_publish_ok io tick"
  shows "(insert_ok io \<or> length (tickBuffer w) < maxArgs \<longrightarrow>
            fst (processTick maxArgs io tick w) = None) \<and>
         redis_keys (snd (processTick maxArgs io tick w)) (symbol tick) = Some (NumberString (price tick)) \<and>
         redis_published (snd (processTick maxArgs io tick w)) = redis_published w @ [(''market:ticks'', tick)] \<and>
         (if BATCH_SIZE \<le> length (tickBuffer w) + 1
          then insertCalls (snd (processTick maxArgs io tick w)) = insertCalls w @ [tickBuffer w @ [tick]]
          else tickBuffer (snd (processTick maxArgs io tick w)) = tickBuffer w @ [tick])"
proof -
  from assms obtain ms where d: "timestamp tick = Date ms"
    by (cases "timestamp tick") (simp_all add: cache_and_publish_ok_def)
  show ?thesis
    by (auto simp add: processTick_accepted_fields [OF assms]
        processTick_accepted_fields(7) [OF assms d])
qed

theorem processTick_does_not_validate_witness:
  "cache_and_publish_ok all_ok \<lparr>symbol = [], price = 0::int, volume = 0, timestamp = Date 0\<rparr> \<and>
   insert_ok all_ok \<and>
   fst (processTick 125000 all_ok \<lparr>symbol = [], price = 0::int, volume = 0, timestamp = Date 0\<rparr>
     (MarketDataIngestor Map.empty)) = None \<and>
   redis_published (snd (processTick 125000 all_ok \<lparr>symbol = [], price = 0::int, volume = 0, timestamp = Date 0\<rparr>
     (MarketDataIngestor Map.empty)))
     = [(''market:ticks'', \<lparr>symbol = [], price = 0, volume = 0, timestamp = Date 0\<rparr>)]"
  using processTick_does_not_validate [where io = all_ok and maxArgs = 125000
      and tick = "\<lparr>symbol = [], price = 0::int, volume = 0, timestamp = Date 0\<rparr>"
      and w = "MarketDataIngestor Map.empty"]
  by (simp add: eval_defs)




text \<open>
  C8: a flush on an empty buffer returns at once and changes nothing (in particular
  it makes no insert call), whether it is awaited or only started; hence every batch handed to
  \<^verbatim>\<open>clickhouse.insert\<close> is non-empty, in every sequential execution followed by a
  shutdown and in every interleaved execution.
\<close>

theorem flush_of_empty_buffer_is_noop:
  "(tickBuffer w = [] \<longrightarrow> flushBatch maxArgs ok w = (None, w) \<and> flushBatch_start w = w) \<and>
   (\<forall>b \<in> set (insertCalls (snd (shutdown maxArgs ins_ok quit_ok close_ok (run maxArgs ops (MarketDataIngestor kv))))).
      b \<noteq> []) \<and>
   (\<forall>b \<in> set (insertCalls (execute maxArgs es (MarketDataIngestor kv))). b \<noteq> [])"
proof -
  have init: "\<forall>b\<in>set (insertCalls (MarketDataIngestor kv)). b \<noteq> []"
    by (simp add: MarketDataIngestor_def startBatchProcessor_def)
  have "\<forall>b\<in>set (insertCalls (run maxArgs ops (MarketDataIngestor kv))). b \<noteq> []"
    by (rule run_nonempty_batches [OF init])
  then have "\<forall>b \<in> set (insertCalls (snd (shutdown maxArgs ins_ok quit_ok close_ok (run maxArgs ops (MarketDataIngestor kv))))).
      b \<noteq> []"
    by (simp add: shutdown_fields flushBatch_fields)
  moreover have "\<forall>b \<in> set (insertCalls (execute maxArgs es (MarketDataIngestor kv))). b \<noteq> []"
    by (rule execute_nonempty_batches [OF init])
  ultimately show ?thesis
    by (simp add: flushBatch_empty flushBatch_start_empty)
qed

theorem flush_of_empty_buffer_is_noop_witness:
  "tickBuffer (MarketDataIngestor Map.empty :: int system) = [] \<and>
   flushBatch 125000 True (MarketDataIngestor Map.empty :: int system)
     = (None, MarketDataIngestor Map.empty) \<and>
   insertCalls (snd (shutdown 125000 True True True
     (run 125000 [ProcessTick (aapl 10 1000) all_ok, TimerFlush True, TimerFlush True, ProcessTick (aapl 11 2000) all_ok]
        (MarketDataIngestor Map.empty)))) = [[aapl 10 1000], [aapl 11 2000]] \<and>
   insertCalls (execute 125000 (ingest (aapl 10 1000) @ [TimerFires, TimerFires])
     (MarketDataIngestor Map.empty)) = [[aapl 10 1000]]"
  using flush_of_empty_buffer_is_noop [where w = "MarketDataIngestor Map.empty :: int system"
      and maxArgs = 125000 and ok = True and ins_ok = True and quit_ok = True and close_ok = True
      and ops = "[ProcessTick (aapl 10 1000) all_ok, TimerFlush True, TimerFlush True,
                  ProcessTick (aapl 11 2000) all_ok]"
      and kv = Map.empty and es = "ingest (aapl 10 1000) @ [TimerFires, TimerFires]"]
  by (simp add: eval_defs)

text \<open>
  C9 as stated fails: after a tick observed at 2000 ms, a tick for the same symbol
  observed at 1000 ms is delivered; the cached timestamp goes back from 2000 to 1000
  and the cached price is that of the older tick.
\<close>

theorem later_timestamp_overwritten_by_earlier:
  "redis_keys (run 125000 [ProcessTick (aapl 10 2000) all_ok] (MarketDataIngestor Map.empty))
     ''AAPL:timestamp'' = Some (ISOString 2000) \<and>
   redis_keys (run 125000 [ProcessTick (aapl 10 2000) all_ok, ProcessTick (aapl 5 1000) all_ok]
     (MarketDataIngestor Map.empty)) ''AAPL:timestamp'' = Some (ISOString 1000) \<and>
   redis_keys (run 125000 [ProcessTick (aapl 10 2000) all_ok, ProcessTick (aapl 5 1000) all_ok]
     (MarketDataIngestor Map.empty)) ''AAPL'' = Some (NumberString 5)"
  by (simp add: eval_defs)

text \<open>
  C9, amended: for every tick ingested (its cache and publish calls succeed), a cache
  lookup for that instrument right after the ingest returns exactly that tick's price
  and timestamp, whatever the cache held before. The overwrite is unconditional
  (last delivered wins): timestamps are not compared, so a cached entry with a later
  observedAt is overwritten by a tick with an earlier one that is delivered after it.
\<close>

theorem cache_holds_last_delivered_tick:
  assumes "cache_and_publish_ok io tick" and "timestamp tick = Date ms"
  shows "redis_keys (snd (processTick maxArgs io tick w)) (symbol tick) = Some (NumberString (price tick)) \<and>
         redis_keys (snd (processTick maxArgs io tick w)) (symbol tick @ '':timestamp'') = Some (ISOString ms)"
  by (simp add: processTick_accepted_fields(7) [OF assms])

theorem cache_holds_last_delivered_tick_witness:
  "cache_and_publish_ok all_ok (aapl 5 1000) \<and> timestamp (aapl 5 1000) = Date 1000 \<and>
   redis_keys (snd (processTick 125000 all_ok (aapl 5 1000)
     (run 125000 [ProcessTick (aapl 10 2000) all_ok] (MarketDataIngestor Map.empty))))
     (symbol (aapl 5 1000) @ '':timestamp'') = Some (ISOString 1000) \<and>
   redis_keys (run 125000 [ProcessTick (aapl 10 2000) all_ok] (MarketDataIngestor Map.empty))
     (symbol (aapl 5 1000) @ '':timestamp'') = Some (ISOString 2000)"
  using cache_holds_last_delivered_tick [where io = all_ok and tick = "aapl 5 1000" and ms = 1000
      and maxArgs = 125000
      and w = "run 125000 [ProcessTick (aapl 10 2000) all_ok] (MarketDataIngestor Map.empty)"]
  by (simp add: eval_defs)

text \<open>
  C10: on an engine that accepts BATCH_SIZE arguments in one call, there is an
  execution in which one insert call receives more than BATCH_SIZE ticks. Some processTick calls and a tick t1 bring the buffer to the threshold; the
  insert of that flush fails, so the batch is back in the buffer; the next tick t2 is
  appended behind it, and the flush it triggers hands the whole buffer, the failed
  batch and t2, to the writer as one batch of BATCH_SIZE + 1 ticks.
\<close>

theorem oversized_batch_after_failed_insert:
  assumes "BATCH_SIZE \<le> maxArgs"
  shows "\<exists>(ops :: int op list) t1 t2.
     insertCalls (run maxArgs (ops @ [ProcessTick t1 (all_ok\<lparr>insert_ok := False\<rparr>)])
        (MarketDataIngestor Map.empty)) = [ticks_of ops @ [t1]] \<and>
     tickBuffer (run maxArgs (ops @ [ProcessTick t1 (all_ok\<lparr>insert_ok := False\<rparr>)])
        (MarketDataIngestor Map.empty)) = ticks_of ops @ [t1] \<and>
     insertCalls (run maxArgs (ops @ [ProcessTick t1 (all_ok\<lparr>insert_ok := False\<rparr>), ProcessTick t2 all_ok])
        (MarketDataIngestor Map.empty)) = [ticks_of ops @ [t1], ticks_of ops @ [t1, t2]] \<and>
     length (ticks_of ops @ [t1, t2]) = BATCH_SIZE + 1 \<and>
     BATCH_SIZE < length (ticks_of ops @ [t1, t2])"
proof -
  let ?w = "MarketDataIngestor Map.empty :: int system"
  have init: "tickBuffer ?w = []" "insertCalls ?w = []"
    by (simp_all add: MarketDataIngestor_def startBatchProcessor_def)
  have len: "length (tickBuffer ?w) + length (aapl_ticks 99) + 1 = BATCH_SIZE"
    by (simp add: init aapl_ticks_facts BATCH_SIZE_def)
  have t1: "cache_and_publish_ok (all_ok\<lparr>insert_ok := False\<rparr>) (aapl 99 99)"
    and fails: "\<not> insert_ok (all_ok\<lparr>insert_ok := False\<rparr>)"
    and t2: "cache_and_publish_ok all_ok (aapl 100 100)"
    by (simp_all add: all_ok_def cache_and_publish_ok_def aapl_def)
  note over = oversized_batch [OF aapl_ticks_facts(3) len t1 fails t2 assms]
  from over(4) have "BATCH_SIZE < length (tickBuffer ?w @ ticks_of (aapl_ticks 99) @ [aapl 99 99, aapl 100 100])"
    by simp
  with over show ?thesis
    unfolding init append_Nil by (intro exI conjI)
qed

theorem oversized_batch_after_failed_insert_witness:
  "BATCH_SIZE \<le> 125000 \<and>
   (\<exists>(ops :: int op list) t1 t2.
     insertCalls (run 125000 (ops @ [ProcessTick t1 (all_ok\<lparr>insert_ok := False\<rparr>), ProcessTick t2 all_ok])
        (MarketDataIngestor Map.empty)) = [ticks_of ops @ [t1], ticks_of ops @ [t1, t2]] \<and>
     BATCH_SIZE < length (ticks_of ops @ [t1, t2]))"
proof -
  have fits: "BATCH_SIZE \<le> 125000"
    by (simp add: BATCH_SIZE_def)
  from oversized_batch_after_failed_insert [OF fits] fits show ?thesis
    by blast
qed

end
